theory Spec2Isabelle
  imports Main
begin

section \<open>Characters, whitespace and decimal numerals\<close>

text \<open>
  Query strings are modelled as lists of 8-bit characters, that is, as ASCII text:
  decimal digits and white space outside ASCII, which Python's \<^verbatim>\<open>\d\<close>,
  \<^verbatim>\<open>int\<close> and \<^verbatim>\<open>str.strip\<close> also know, are outside the model.
  \<open>is_digit\<close> is the class \<^verbatim>\<open>\d\<close> on such text, \<open>is_space\<close> the characters that
  \<^verbatim>\<open>str.strip()\<close> removes, \<open>lower\<close> the case folding that \<^verbatim>\<open>re.I\<close> applies to
  a letter.
\<close>

definition is_digit :: "char \<Rightarrow> bool" where
  "is_digit c = (48 \<le> (of_char c :: nat) \<and> (of_char c :: nat) \<le> 57)"

definition is_space :: "char \<Rightarrow> bool" where
  "is_space c =
     ((9 \<le> (of_char c :: nat) \<and> (of_char c :: nat) \<le> 13) \<or>
      (28 \<le> (of_char c :: nat) \<and> (of_char c :: nat) \<le> 32))"

definition lower :: "char \<Rightarrow> char" where
  "lower c =
     (if 65 \<le> (of_char c :: nat) \<and> (of_char c :: nat) \<le> 90
      then char_of ((of_char c :: nat) + 32) else c)"

definition strip :: "string \<Rightarrow> string" where
  "strip s = rev (dropWhile is_space (rev (dropWhile is_space s)))"

section \<open>The regular-expression engine\<close>

text \<open>
  The two patterns of the plugin use digit and non-digit classes, one letter compiled
  under \<^verbatim>\<open>re.I\<close>, the anchor \<^verbatim>\<open>$\<close>, sequencing, alternation, the greedy
  \<^verbatim>\<open>+\<close> and capturing groups. \<open>bt\<close> is the backtracking matcher: from a state (the
  captures so far and the input still unread) it returns every state in which the
  pattern can stop, in the order in which backtracking tries them (greedy repetition
  first, left alternative first).
\<close>

datatype regex =
    Digit
  | NonDigit
  | LitI char
  | Eos
  | Seq regex regex
  | Alt regex regex
  | Plus regex
  | Group nat regex

type_synonym caps = "nat \<Rightarrow> string option"

type_synonym mstate = "caps \<times> string"

function bt :: "regex \<Rightarrow> mstate \<Rightarrow> mstate list" where
  "bt Digit (c, s) =
     (case s of [] \<Rightarrow> [] | x # xs \<Rightarrow> if is_digit x then [(c, xs)] else [])"
| "bt NonDigit (c, s) =
     (case s of [] \<Rightarrow> [] | x # xs \<Rightarrow> if is_digit x then [] else [(c, xs)])"
| "bt (LitI a) (c, s) =
     (case s of [] \<Rightarrow> [] | x # xs \<Rightarrow> if lower x = lower a then [(c, xs)] else [])"
| "bt Eos (c, s) = (if s = [] \<or> s = [CHR 0x0A] then [(c, s)] else [])"
| "bt (Seq r1 r2) (c, s) = concat (map (bt r2) (bt r1 (c, s)))"
| "bt (Alt r1 r2) (c, s) = bt r1 (c, s) @ bt r2 (c, s)"
| "bt (Plus r) (c, s) =
     concat (map (\<lambda>st. (if length (snd st) < length s then bt (Plus r) st else []) @ [st])
                 (bt r (c, s)))"
| "bt (Group i r) (c, s) =
     map (\<lambda>st. ((fst st)(i \<mapsto> take (length s - length (snd st)) s), snd st)) (bt r (c, s))"
  by pat_completeness auto
termination
  by (relation "measures [\<lambda>(r, st). size r, \<lambda>(r, st). length (snd st)]") auto

text \<open>
  \<^verbatim>\<open>Pattern.fullmatch\<close> succeeds when some backtracking path ends at the end of the
  input; \<^verbatim>\<open>Pattern.match\<close> at one position takes the first path that succeeds.
  \<open>findall\<close> is \<^verbatim>\<open>Pattern.findall\<close> for a pattern with two groups: it scans the
  input from left to right, reports the pair of groups of each match and resumes where
  the match ended. After a match that consumed nothing the scan moves on by one
  character (neither pattern of the plugin can match the empty string).
\<close>

definition fullmatch :: "regex \<Rightarrow> string \<Rightarrow> caps option" where
  "fullmatch r s = map_option fst (find (\<lambda>st. snd st = []) (bt r (Map.empty, s)))"

definition match_here :: "regex \<Rightarrow> string \<Rightarrow> mstate option" where
  "match_here r s = (case bt r (Map.empty, s) of [] \<Rightarrow> None | st # _ \<Rightarrow> Some st)"

definition group :: "caps \<Rightarrow> nat \<Rightarrow> string" where
  "group c i = (case c i of None \<Rightarrow> [] | Some g \<Rightarrow> g)"

function findall :: "regex \<Rightarrow> string \<Rightarrow> (string \<times> string) list" where
  "findall r s =
     (case match_here r s of
        None \<Rightarrow> (case s of [] \<Rightarrow> [] | x # xs \<Rightarrow> findall r xs)
      | Some st \<Rightarrow>
          (group (fst st) 1, group (fst st) 2) #
          (if length (snd st) < length s then findall r (snd st)
           else (case s of [] \<Rightarrow> [] | x # xs \<Rightarrow> findall r xs)))"
  by pat_completeness auto
termination
  by (relation "measure (\<lambda>(r, s). length s)") auto

text \<open>
  \<^verbatim>\<open>single_dice_regex = re.compile(r"(\d+)d(\d+)", re.I)\<close> and
  \<^verbatim>\<open>multiple_dice_regex = re.compile(r"(?:(\d+)d(\d+)(?:\D+|$))+", re.I)\<close>.
\<close>

definition single_dice_regex :: regex where
  "single_dice_regex =
     Seq (Group 1 (Plus Digit)) (Seq (LitI (CHR ''d'')) (Group 2 (Plus Digit)))"

definition multiple_dice_regex :: regex where
  "multiple_dice_regex =
     Plus (Seq (Group 1 (Plus Digit))
            (Seq (LitI (CHR ''d''))
              (Seq (Group 2 (Plus Digit)) (Alt (Plus NonDigit) Eos))))"

section \<open>Python built-ins used by the plugin\<close>

datatype py_error = ValueError

text \<open>
  \<open>py_int\<close> is \<^verbatim>\<open>int(s)\<close> on the strings the plugin passes to it, runs of decimal
  digits; on any other string the model raises. The bound that recent interpreters
  put on the number of digits \<^verbatim>\<open>int\<close> converts is not modelled. \<open>str_int\<close> is
  \<^verbatim>\<open>str(n)\<close>, which is also how an f-string renders an integer, and \<open>join\<close> is
  \<^verbatim>\<open>sep.join(xs)\<close>.
\<close>

definition digit_val :: "char \<Rightarrow> nat" where
  "digit_val c = (of_char c :: nat) - 48"

definition py_int :: "string \<Rightarrow> py_error + int" where
  "py_int s =
     (if s \<noteq> [] \<and> list_all is_digit s
      then Inr (foldl (\<lambda>a c. 10 * a + int (digit_val c)) 0 s)
      else Inl ValueError)"

function str_nat :: "nat \<Rightarrow> string" where
  "str_nat n =
     (if n < 10 then [char_of (48 + n)]
      else str_nat (n div 10) @ [char_of (48 + n mod 10)])"
  by pat_completeness auto
termination
  by (relation "measure (\<lambda>n. n)") auto

definition str_int :: "int \<Rightarrow> string" where
  "str_int i = (if i < 0 then CHR ''-'' # str_nat (nat (- i)) else str_nat (nat i))"

fun join :: "string \<Rightarrow> string list \<Rightarrow> string" where
  "join sep [] = []"
| "join sep [x] = x"
| "join sep (x # y # ys) = x @ sep @ join sep (y # ys)"

text \<open>
  The process-wide random source is made explicit: \<open>source\<close> is the sequence of raw
  values the generator will produce and \<open>drawn\<close> counts how many were consumed.
  \<^verbatim>\<open>random.randint(a, b)\<close> raises \<^verbatim>\<open>ValueError\<close> on an empty range and otherwise
  maps the next raw value into \<open>[a, b]\<close>.
\<close>

record rng =
  source :: "nat \<Rightarrow> nat"
  drawn :: nat

definition randint :: "int \<Rightarrow> int \<Rightarrow> rng \<Rightarrow> (py_error + int) \<times> rng" where
  "randint a b g =
     (if b < a then (Inl ValueError, g)
      else (Inr (a + int (source g (drawn g)) mod (b - a + 1)),
            g\<lparr>drawn := Suc (drawn g)\<rparr>))"

section \<open>The host's item model and the environment\<close>

datatype action = ClipAction string string

record item =
  item_id :: string
  item_icon :: string
  item_text :: string
  item_subtext :: string
  item_actions :: "action list"

text \<open>
  \<open>icons_path\<close> is the text of \<^verbatim>\<open>Path(__file__).parent / "icons"\<close> and
  \<open>file_exists\<close> the state of the file system that \<^verbatim>\<open>Path.exists\<close> reads.
  \<open>path_join\<close> is the operator \<^verbatim>\<open>/\<close> of \<^verbatim>\<open>pathlib\<close> on that directory and a
  plain file name, \<open>fmt_sides\<close> the rendering of the optional side count in an
  f-string, \<open>truthy\<close> its truth value in a conditional, \<open>title\<close> the module's
  \<^verbatim>\<open>__title__\<close>.
\<close>

record env =
  icons_path :: string
  file_exists :: "string \<Rightarrow> bool"

definition path_join :: "string \<Rightarrow> string \<Rightarrow> string" where
  "path_join dir name = dir @ ''/'' @ name"

definition fmt_sides :: "int option \<Rightarrow> string" where
  "fmt_sides num_sides = (case num_sides of None \<Rightarrow> ''None'' | Some n \<Rightarrow> str_int n)"

definition truthy :: "int option \<Rightarrow> bool" where
  "truthy num_sides = (case num_sides of None \<Rightarrow> False | Some n \<Rightarrow> n \<noteq> 0)"

definition title :: string where
  "title = ''Dice Roll''"

section \<open>The plugin\<close>

definition get_icon_path :: "env \<Rightarrow> int option \<Rightarrow> string" where
  "get_icon_path e num_sides =
     (let icon = (if file_exists e (path_join (icons_path e) (''d'' @ fmt_sides num_sides @ ''.svg''))
                  then ''d'' @ fmt_sides num_sides else ''d20'');
          icon = (if num_sides = None then ''dice'' else icon)
      in path_join (icons_path e) (icon @ ''.svg''))"

fun roll_loop :: "nat \<Rightarrow> int \<Rightarrow> rng \<Rightarrow> (py_error + int list) \<times> rng" where
  "roll_loop 0 num_sides g = (Inr [], g)"
| "roll_loop (Suc k) num_sides g =
     (case randint 1 num_sides g of
        (Inl err, g') \<Rightarrow> (Inl err, g')
      | (Inr x, g') \<Rightarrow>
          (case roll_loop k num_sides g' of
             (Inl err, g'') \<Rightarrow> (Inl err, g'')
           | (Inr xs, g'') \<Rightarrow> (Inr (x # xs), g'')))"

definition roll_dice :: "int \<Rightarrow> int \<Rightarrow> rng \<Rightarrow> (py_error + int \<times> int list) \<times> rng" where
  "roll_dice num_dice num_sides g =
     (case roll_loop (nat num_dice) num_sides g of
        (Inl err, g') \<Rightarrow> (Inl err, g')
      | (Inr rolls, g') \<Rightarrow> (Inr (sum_list rolls, rolls), g'))"

definition get_item_from_rolls :: "env \<Rightarrow> int list \<Rightarrow> int \<Rightarrow> int option \<Rightarrow> item" where
  "get_item_from_rolls e rolls sum_rolls num_sides =
     \<lparr>item_id = title,
      item_icon = get_icon_path e num_sides,
      item_text =
        (if truthy num_sides
         then ''Rolled '' @ str_int (int (length rolls)) @ ''d'' @ fmt_sides num_sides @
              '' - Total: '' @ str_int sum_rolls
         else ''Overall Total: '' @ str_int sum_rolls),
      item_subtext = ''Rolls: '' @ join '', '' (map str_int rolls),
      item_actions =
        [ClipAction ''Copy total to clipboard'' (str_int sum_rolls),
         ClipAction ''Copy rolls to clipboard'' (join '', '' (map str_int rolls))]\<rparr>"

text \<open>
  The loop of \<open>get_items\<close> over the matches, with its three accumulators
  \<open>results\<close>, \<open>sum_all_rolls\<close> and \<open>all_rolls\<close>; an exception leaves the loop with
  the random source as far as it was consumed.
\<close>

fun get_items_loop ::
  "env \<Rightarrow> (string \<times> string) list \<Rightarrow> item list \<times> int \<times> int list \<Rightarrow> rng \<Rightarrow>
   (py_error + item list \<times> int \<times> int list) \<times> rng" where
  "get_items_loop e [] acc g = (Inr acc, g)"
| "get_items_loop e (m # ms) (results, sum_all_rolls, all_rolls) g =
     (case py_int (fst m) of
        Inl err \<Rightarrow> (Inl err, g)
      | Inr num_dice \<Rightarrow>
     (case py_int (snd m) of
        Inl err \<Rightarrow> (Inl err, g)
      | Inr num_sides \<Rightarrow>
     (case roll_dice num_dice num_sides g of
        (Inl err, g') \<Rightarrow> (Inl err, g')
      | (Inr (sum_rolls, rolls), g') \<Rightarrow>
          get_items_loop e ms
            (results @ [get_item_from_rolls e rolls sum_rolls (Some num_sides)],
             sum_all_rolls + sum_rolls, all_rolls @ rolls) g')))"

definition get_items :: "env \<Rightarrow> string \<Rightarrow> rng \<Rightarrow> (py_error + item list) \<times> rng" where
  "get_items e query_string g =
     (let matches = findall single_dice_regex query_string in
      case get_items_loop e matches ([], 0, []) g of
        (Inl err, g') \<Rightarrow> (Inl err, g')
      | (Inr (results, sum_all_rolls, all_rolls), g') \<Rightarrow>
          (Inr (if length matches > 1
                then results @ [get_item_from_rolls e all_rolls sum_all_rolls None]
                else results), g'))"

text \<open>
  The host is the random source together with the diagnostic calls made so far
  (\<^verbatim>\<open>albert.warn\<close>, \<^verbatim>\<open>albert.info\<close>); both calls belong to the host and are
  taken to return. \<open>handleQuery\<close> returns \<open>None\<close> where the Python function returns
  without a value: when validation fails and after an exception was handled.
\<close>

datatype diag = Warn py_error | Info string

record world =
  world_rng :: rng
  diagnostics :: "diag list"

definition format_notice :: string where
  "format_notice = ''Something went wrong. Make sure you're using the correct format.''"

definition handleQuery :: "env \<Rightarrow> string \<Rightarrow> world \<Rightarrow> item list option \<times> world" where
  "handleQuery e query w =
     (let query_string = strip query in
      case fullmatch multiple_dice_regex query_string of
        None \<Rightarrow> (None, w)
      | Some m \<Rightarrow>
          (case get_items e query_string (world_rng w) of
             (Inr items, g') \<Rightarrow> (Some items, w\<lparr>world_rng := g'\<rparr>)
           | (Inl err, g') \<Rightarrow>
               (None, w\<lparr>world_rng := g',
                       diagnostics := diagnostics w @ [Warn err, Info format_notice]\<rparr>)))"

section \<open>Specification-level definitions\<close>

declare bt.simps(7) [simp del]

declare findall.simps [simp del]

declare str_nat.simps [simp del]

text \<open>
  \<open>rm r s s'\<close> is the relational reading of the engine: the pattern \<open>r\<close> can consume
  a prefix of \<open>s\<close> and leave \<open>s'\<close>, whatever the order in which backtracking finds
  that path.
\<close>

inductive rm :: "regex \<Rightarrow> string \<Rightarrow> string \<Rightarrow> bool" where
  rm_Digit: "is_digit x \<Longrightarrow> rm Digit (x # xs) xs"
| rm_NonDigit: "\<not> is_digit x \<Longrightarrow> rm NonDigit (x # xs) xs"
| rm_LitI: "lower x = lower a \<Longrightarrow> rm (LitI a) (x # xs) xs"
| rm_Eos: "s = [] \<or> s = [CHR 0x0A] \<Longrightarrow> rm Eos s s"
| rm_Seq: "rm r1 s s1 \<Longrightarrow> rm r2 s1 s2 \<Longrightarrow> rm (Seq r1 r2) s s2"
| rm_AltL: "rm r1 s s1 \<Longrightarrow> rm (Alt r1 r2) s s1"
| rm_AltR: "rm r2 s s1 \<Longrightarrow> rm (Alt r1 r2) s s1"
| rm_Plus1: "rm r s s1 \<Longrightarrow> rm (Plus r) s s1"
| rm_PlusN: "rm r s s1 \<Longrightarrow> length s1 < length s \<Longrightarrow> rm (Plus r) s1 s2 \<Longrightarrow> rm (Plus r) s s2"
| rm_Group: "rm r s s1 \<Longrightarrow> rm (Group i r) s s1"

inductive_cases rm_DigitE: "rm Digit s s'"

inductive_cases rm_NonDigitE: "rm NonDigit s s'"

inductive_cases rm_LitIE: "rm (LitI a) s s'"

inductive_cases rm_EosE: "rm Eos s s'"

inductive_cases rm_SeqE: "rm (Seq r1 r2) s s'"

inductive_cases rm_AltE: "rm (Alt r1 r2) s s'"

inductive_cases rm_PlusE: "rm (Plus r) s s'"

inductive_cases rm_GroupE: "rm (Group i r) s s'"

text \<open>
  The language that validation is said to accept. A token is a non-empty run of
  digits, the letter \<open>d\<close> in either case and a non-empty run of digits; a separator is
  a non-empty run of characters that are not digits; a token sequence is a token
  followed by the end of the string, or by a separator and the end of the string, or
  by a separator and a further token sequence.
\<close>

definition dice_token :: "string \<Rightarrow> bool" where
  "dice_token t \<longleftrightarrow>
     (\<exists>a d b. t = a @ d # b \<and> a \<noteq> [] \<and> list_all is_digit a \<and>
        (d = CHR ''d'' \<or> d = CHR ''D'') \<and> b \<noteq> [] \<and> list_all is_digit b)"

definition separator_run :: "string \<Rightarrow> bool" where
  "separator_run p \<longleftrightarrow> p \<noteq> [] \<and> list_all (\<lambda>x. \<not> is_digit x) p"

inductive token_sequence :: "string \<Rightarrow> bool" where
  ts_end: "dice_token t \<Longrightarrow> token_sequence t"
| ts_sep: "dice_token t \<Longrightarrow> separator_run p \<Longrightarrow> token_sequence (t @ p)"
| ts_more: "dice_token t \<Longrightarrow> separator_run p \<Longrightarrow> token_sequence rest \<Longrightarrow>
            token_sequence (t @ p @ rest)"

text \<open>The body that \<open>multiple_dice_regex\<close> repeats.\<close>

definition token_body :: regex where
  "token_body =
     Seq (Group 1 (Plus Digit))
       (Seq (LitI (CHR ''d''))
         (Seq (Group 2 (Plus Digit)) (Alt (Plus NonDigit) Eos)))"

text \<open>
  The extraction scan written out as a function on the text. \<open>token_at s\<close> is the
  token that starts at the head of \<open>s\<close>, with both digit runs taken as long as they
  go, and the text after it; \<open>scan_tokens\<close> reports the token at the head and resumes
  after it, or drops one character where no token starts.
\<close>

definition token_at :: "string \<Rightarrow> (string \<times> string \<times> string) option" where
  "token_at s =
     (case dropWhile is_digit s of
        [] \<Rightarrow> None
      | d # r \<Rightarrow>
          if takeWhile is_digit s \<noteq> [] \<and> (d = CHR ''d'' \<or> d = CHR ''D'') \<and>
             takeWhile is_digit r \<noteq> []
          then Some (takeWhile is_digit s, takeWhile is_digit r, dropWhile is_digit r)
          else None)"

lemma token_at_shorter: "token_at s = Some (a, b, rest) \<Longrightarrow> length rest < length s"
proof -
  assume h: "token_at s = Some (a, b, rest)"
  then obtain d r where dr: "dropWhile is_digit s = d # r" and rest: "rest = dropWhile is_digit r"
    by (auto simp: token_at_def split: list.splits if_splits)
  have "length rest \<le> length r" unfolding rest by (rule length_dropWhile_le)
  also have "length r < length (dropWhile is_digit s)" by (simp add: dr)
  also have "\<dots> \<le> length s" by (rule length_dropWhile_le)
  finally show ?thesis .
qed

function scan_tokens :: "string \<Rightarrow> (string \<times> string) list" where
  "scan_tokens s =
     (case token_at s of
        Some (a, b, rest) \<Rightarrow> (a, b) # scan_tokens rest
      | None \<Rightarrow> (case s of [] \<Rightarrow> [] | x # xs \<Rightarrow> scan_tokens xs))"
  by pat_completeness auto
termination
  by (relation "measure length") (auto dest: token_at_shorter)

text \<open>
  Readers of what an entry displays: \<open>after m s\<close> is the text after the first
  occurrence of the marker \<open>m\<close> in \<open>s\<close>, \<open>read_int\<close> reads a decimal numeral with an
  optional minus sign, \<open>fields\<close> splits a listing at each comma and the space after
  it, and \<open>read_listing\<close> reads the integers of a listing. \<open>shown_total\<close> is the
  integer after \<^verbatim>\<open>Total: \<close> in the headline of an entry and \<open>listed_rolls\<close> the
  integers after \<^verbatim>\<open>Rolls: \<close> in its subtext.
\<close>

definition digits_value :: "string \<Rightarrow> int" where
  "digits_value s = foldl (\<lambda>a c. 10 * a + int (digit_val c)) 0 s"

definition read_int :: "string \<Rightarrow> int option" where
  "read_int s =
     (case s of
        [] \<Rightarrow> None
      | x # xs \<Rightarrow>
          if x = CHR ''-''
          then (case py_int xs of Inl err \<Rightarrow> None | Inr n \<Rightarrow> Some (- n))
          else (case py_int s of Inl err \<Rightarrow> None | Inr n \<Rightarrow> Some n))"

function fields :: "string \<Rightarrow> string list" where
  "fields s =
     (case dropWhile (\<lambda>c. c \<noteq> CHR '','') s of
        [] \<Rightarrow> [s]
      | x # r \<Rightarrow> takeWhile (\<lambda>c. c \<noteq> CHR '','') s # fields (drop 1 r))"
  by pat_completeness auto
termination
proof (relation "measure length")
  show "wf (measure length)" by simp
next
  fix s :: string and x r
  assume "dropWhile (\<lambda>c. c \<noteq> CHR '','') s = x # r"
  then have "length r < length (dropWhile (\<lambda>c. c \<noteq> CHR '','') s)" by simp
  also have "\<dots> \<le> length s" by (rule length_dropWhile_le)
  finally show "(drop 1 r, s) \<in> measure length" by simp
qed

definition read_listing :: "string \<Rightarrow> int list option" where
  "read_listing s = (if s = [] then Some [] else those (map read_int (fields s)))"

fun after :: "string \<Rightarrow> string \<Rightarrow> string option" where
  "after m [] = (if m = [] then Some [] else None)"
| "after m (x # xs) =
     (if take (length m) (x # xs) = m then Some (drop (length m) (x # xs)) else after m xs)"

text \<open>
  A rolled group is its side count with its outcomes. \<open>group_ok m gr\<close> says that the
  group \<open>gr\<close> belongs to the match \<open>m\<close>: the first capture of \<open>m\<close> is the number of
  outcomes, the second the side count, and every outcome lies between \<open>1\<close> and the
  side count. \<open>group_item\<close> is the entry of a group and \<open>summary_item\<close> the
  overall-total entry of a list of groups.
\<close>

definition group_ok :: "string \<times> string \<Rightarrow> int \<times> int list \<Rightarrow> bool" where
  "group_ok m gr \<longleftrightarrow>
     py_int (fst m) = Inr (int (length (snd gr))) \<and>
     py_int (snd m) = Inr (fst gr) \<and>
     (\<forall>x \<in> set (snd gr). 1 \<le> x \<and> x \<le> fst gr)"

definition group_item :: "env \<Rightarrow> int \<times> int list \<Rightarrow> item" where
  "group_item e gr = get_item_from_rolls e (snd gr) (sum_list (snd gr)) (Some (fst gr))"

definition summary_item :: "env \<Rightarrow> (int \<times> int list) list \<Rightarrow> item" where
  "summary_item e gs =
     get_item_from_rolls e (concat (map snd gs)) (sum_list (map (\<lambda>gr. sum_list (snd gr)) gs)) None"

definition shown_total :: "item \<Rightarrow> int option" where
  "shown_total it =
     (case after ''Total: '' (item_text it) of None \<Rightarrow> None | Some s \<Rightarrow> read_int s)"

definition listed_rolls :: "item \<Rightarrow> int list option" where
  "listed_rolls it =
     (case after ''Rolls: '' (item_subtext it) of None \<Rightarrow> None | Some s \<Rightarrow> read_listing s)"

text \<open>
  A concrete environment, random source and host for the examples: an icons directory
  that holds only \<^verbatim>\<open>d6.svg\<close>, and the raw values \<open>3, 10, 17, \<dots>\<close>
\<close>

definition demo_env :: env where
  "demo_env = \<lparr>icons_path = ''icons'', file_exists = (\<lambda>p. p = ''icons/d6.svg'')\<rparr>"

definition demo_rng :: rng where
  "demo_rng = \<lparr>source = (\<lambda>i. 7 * i + 3), drawn = 0\<rparr>"

definition demo_world :: world where
  "demo_world = \<lparr>world_rng = demo_rng, diagnostics = []\<rparr>"

section \<open>Properties of the engine and of the built-ins\<close>

declare scan_tokens.simps [simp del]

declare fields.simps [simp del]

subsection \<open>The dice roller\<close>

lemma randint_ok:
  "1 \<le> n \<Longrightarrow> randint 1 n g = (Inr (1 + int (source g (drawn g)) mod n), g\<lparr>drawn := Suc (drawn g)\<rparr>)"
  by (simp add: randint_def)

lemma roll_loop_ok:
  "1 \<le> n \<Longrightarrow>
   roll_loop k n g =
     (Inr (map (\<lambda>i. 1 + int (source g (drawn g + i)) mod n) [0..<k]), g\<lparr>drawn := drawn g + k\<rparr>)"
proof (induction k arbitrary: g)
  case 0
  show ?case by simp
next
  case (Suc k)
  have shift: "map (\<lambda>i. 1 + int (source g (drawn g + i)) mod n) [0..<Suc k] =
        (1 + int (source g (drawn g)) mod n) #
        map (\<lambda>i. 1 + int (source g (Suc (drawn g) + i)) mod n) [0..<k]"
    by (simp add: upt_conv_Cons map_Suc_upt [symmetric] del: upt_Suc)
  show ?case
    using Suc.prems
    by (simp only: roll_loop.simps randint_ok Suc.IH shift) simp
qed

subsection \<open>The engine against its relational reading\<close>

lemma bt_sound: "st' \<in> set (bt r st) \<Longrightarrow> rm r (snd st) (snd st')"
proof (induction r st arbitrary: st' rule: bt.induct)
  case (1 c s) then show ?case by (auto split: list.splits if_splits intro: rm.intros)
next
  case (2 c s) then show ?case by (auto split: list.splits if_splits intro: rm.intros)
next
  case (3 a c s) then show ?case by (auto split: list.splits if_splits intro: rm.intros)
next
  case (4 c s) then show ?case by (auto split: list.splits if_splits intro: rm.intros)
next
  case (5 r1 r2 c s)
  from "5.prems" obtain st1 where a: "st1 \<in> set (bt r1 (c, s))" and b: "st' \<in> set (bt r2 st1)"
    by auto
  from "5.IH"(1) [OF a] "5.IH"(2) [OF a b] show ?case
    by (auto intro: rm_Seq)
next
  case (6 r1 r2 c s)
  from "6.prems" have "st' \<in> set (bt r1 (c, s)) \<or> st' \<in> set (bt r2 (c, s))" by simp
  then show ?case
  proof
    assume "st' \<in> set (bt r1 (c, s))"
    from "6.IH"(1) [OF this] show ?thesis by (simp add: rm_AltL)
  next
    assume "st' \<in> set (bt r2 (c, s))"
    from "6.IH"(2) [OF this] show ?thesis by (simp add: rm_AltR)
  qed
next
  case (7 r c s)
  from "7.prems" obtain st1 where a: "st1 \<in> set (bt r (c, s))"
    and b: "st' = st1 \<or> (length (snd st1) < length s \<and> st' \<in> set (bt (Plus r) st1))"
    by (auto simp: bt.simps(7) split: if_splits)
  from "7.IH"(1) [OF a] have r1: "rm r s (snd st1)" by simp
  from b show ?case
  proof
    assume "st' = st1" with r1 show ?thesis by (auto intro: rm_Plus1)
  next
    assume c: "length (snd st1) < length s \<and> st' \<in> set (bt (Plus r) st1)"
    then have lt: "length (snd st1) < length s" and mem: "st' \<in> set (bt (Plus r) st1)"
      by simp_all
    from "7.IH"(2) [OF a lt mem] have "rm (Plus r) (snd st1) (snd st')" .
    with r1 c show ?thesis by (auto intro: rm_PlusN)
  qed
next
  case (8 i r c s)
  from "8.prems" obtain st1 where a: "st1 \<in> set (bt r (c, s))" and b: "snd st' = snd st1"
    by auto
  from "8.IH" [OF a] b show ?case by (simp add: rm_Group)
qed

lemma bt_Plus_mem:
  "st' \<in> set (bt (Plus r) (c, s)) \<longleftrightarrow>
   (\<exists>st1 \<in> set (bt r (c, s)).
      st' = st1 \<or> (length (snd st1) < length s \<and> st' \<in> set (bt (Plus r) st1)))"
  by (auto simp: bt.simps(7) split: if_splits)

lemma bt_complete: "rm r s s' \<Longrightarrow> \<exists>c'. (c', s') \<in> set (bt r (c, s))"
proof (induction r s s' arbitrary: c rule: rm.induct)
  case (rm_Seq r1 s s1 r2 s2 c)
  from rm_Seq.IH(1) obtain c1 where a: "(c1, s1) \<in> set (bt r1 (c, s))" by blast
  from rm_Seq.IH(2) obtain c2 where b: "(c2, s2) \<in> set (bt r2 (c1, s1))" by blast
  from a b show ?case by auto
next
  case (rm_Plus1 r s s1 c)
  then obtain c1 where a: "(c1, s1) \<in> set (bt r (c, s))" by blast
  then have "(c1, s1) \<in> set (bt (Plus r) (c, s))"
    unfolding bt_Plus_mem by blast
  then show ?case by blast
next
  case (rm_PlusN r s s1 s2 c)
  from rm_PlusN.IH(1) obtain c1 where a: "(c1, s1) \<in> set (bt r (c, s))" by blast
  from rm_PlusN.IH(2) obtain c2 where b: "(c2, s2) \<in> set (bt (Plus r) (c1, s1))" by blast
  from rm_PlusN.hyps(2) have lt: "length (snd (c1, s1)) < length s" by simp
  have "(c2, s2) \<in> set (bt (Plus r) (c, s))"
    unfolding bt_Plus_mem [of "(c2, s2)" r c s] using a b lt by blast
  then show ?case by blast
next
  case (rm_Group r s s1 i c)
  then obtain c1 where a: "(c1, s1) \<in> set (bt r (c, s))" by blast
  then have "(c1(i \<mapsto> take (length s - length s1) s), s1) \<in> set (bt (Group i r) (c, s))"
    by (force simp: image_iff)
  then show ?case by blast
qed auto

lemma fullmatch_rm: "fullmatch r s \<noteq> None \<longleftrightarrow> rm r s []"
proof
  assume "fullmatch r s \<noteq> None"
  then obtain st where "find (\<lambda>st. snd st = []) (bt r (Map.empty, s)) = Some st"
    by (auto simp: fullmatch_def)
  then have "st \<in> set (bt r (Map.empty, s))" "snd st = []"
    by (auto simp: find_Some_iff)
  with bt_sound [of st r "(Map.empty, s)"] show "rm r s []" by simp
next
  assume "rm r s []"
  from bt_complete [OF this, of Map.empty] obtain c' where "(c', []) \<in> set (bt r (Map.empty, s))" by blast
  then have "find (\<lambda>st. snd st = []) (bt r (Map.empty, s)) \<noteq> None"
    by (auto simp: find_None_iff)
  then show "fullmatch r s \<noteq> None" by (simp add: fullmatch_def)
qed

subsection \<open>Validation accepts exactly the token sequences\<close>

lemma lower_d: "lower x = lower (CHR ''d'') \<longleftrightarrow> x = CHR ''d'' \<or> x = CHR ''D''"
proof -
  have ld: "lower (CHR ''d'') = CHR ''d''" by (simp add: lower_def)
  show ?thesis
  proof (cases "65 \<le> (of_char x :: nat) \<and> (of_char x :: nat) \<le> 90")
    case True
    then have lx: "lower x = char_of ((of_char x :: nat) + 32)" by (simp add: lower_def)
    have "x \<noteq> CHR ''d''" using True by auto
    moreover have "char_of ((of_char x :: nat) + 32) = CHR ''d'' \<longleftrightarrow> x = CHR ''D''"
    proof
      assume "char_of ((of_char x :: nat) + 32) = CHR ''d''"
      then have "of_char (char_of ((of_char x :: nat) + 32)) = (of_char (CHR ''d'') :: nat)" by simp
      then have "((of_char x :: nat) + 32) mod 256 = 100" by (simp add: of_char_of)
      with True have "(of_char x :: nat) = 68" by simp
      then have "(of_char x :: nat) = of_char (CHR ''D'')" by simp
      then show "x = CHR ''D''" by (simp only: of_char_eq_iff)
    next
      have "char_of (100 :: nat) = CHR ''d''" by code_simp
      moreover assume "x = CHR ''D''"
      ultimately show "char_of ((of_char x :: nat) + 32) = CHR ''d''" by simp
    qed
    ultimately show ?thesis by (simp add: ld lx)
  next
    case False
    then have "lower x = x" unfolding lower_def by (simp only: if_False)
    moreover have "x \<noteq> CHR ''D''" using False by auto
    ultimately show ?thesis by (simp add: ld)
  qed
qed

lemma digit_not_d: "is_digit x \<Longrightarrow> lower x \<noteq> lower (CHR ''d'')"
  unfolding lower_d by (auto simp: is_digit_def)

lemma rm_plus_digit_D: "rm r s s' \<Longrightarrow> r = Plus Digit \<Longrightarrow> \<exists>a. s = a @ s' \<and> a \<noteq> [] \<and> list_all is_digit a"
proof (induction r s s' rule: rm.induct)
  case (rm_Plus1 r s s1)
  then have "rm Digit s s1" by simp
  then obtain x where "s = x # s1" "is_digit x" by (auto elim: rm_DigitE)
  then have "s = [x] @ s1 \<and> [x] \<noteq> [] \<and> list_all is_digit [x]" by simp
  then show ?case by blast
next
  case (rm_PlusN r s s1 s2)
  then have "rm Digit s s1" by simp
  then obtain x where x: "s = x # s1" "is_digit x" by (auto elim: rm_DigitE)
  from rm_PlusN obtain a where a: "s1 = a @ s2" "list_all is_digit a" by blast
  from x a have "s = (x # a) @ s2 \<and> x # a \<noteq> [] \<and> list_all is_digit (x # a)" by simp
  then show ?case by blast
qed simp_all

lemma rm_plus_digit_I: "a \<noteq> [] \<Longrightarrow> list_all is_digit a \<Longrightarrow> rm (Plus Digit) (a @ s') s'"
proof (induction a)
  case Nil then show ?case by simp
next
  case (Cons x a)
  show ?case
  proof (cases "a = []")
    case True
    with Cons.prems show ?thesis by (auto intro: rm_Plus1 rm_Digit)
  next
    case False
    with Cons have ih: "rm (Plus Digit) (a @ s') s'" by simp
    have st: "rm Digit ((x # a) @ s') (a @ s')" using Cons.prems by (auto intro: rm_Digit)
    have lt: "length (a @ s') < length ((x # a) @ s')" by simp
    show ?thesis by (rule rm_PlusN [OF st lt ih])
  qed
qed

lemma rm_plus_digit: "rm (Plus Digit) s s' \<longleftrightarrow> (\<exists>a. s = a @ s' \<and> a \<noteq> [] \<and> list_all is_digit a)"
  using rm_plus_digit_D [of "Plus Digit" s s'] rm_plus_digit_I [of _ s'] by blast

lemma rm_plus_nondigit_D:
  "rm r s s' \<Longrightarrow> r = Plus NonDigit \<Longrightarrow> \<exists>p. s = p @ s' \<and> separator_run p"
proof (induction r s s' rule: rm.induct)
  case (rm_Plus1 r s s1)
  then have "rm NonDigit s s1" by simp
  then obtain x where "s = x # s1" "\<not> is_digit x" by (auto elim: rm_NonDigitE)
  then have "s = [x] @ s1 \<and> separator_run [x]" by (simp add: separator_run_def)
  then show ?case by blast
next
  case (rm_PlusN r s s1 s2)
  then have "rm NonDigit s s1" by simp
  then obtain x where x: "s = x # s1" "\<not> is_digit x" by (auto elim: rm_NonDigitE)
  from rm_PlusN obtain p where p: "s1 = p @ s2" "separator_run p" by blast
  from x p have "s = (x # p) @ s2 \<and> separator_run (x # p)" by (simp add: separator_run_def)
  then show ?case by blast
qed simp_all

lemma rm_plus_nondigit_I: "separator_run p \<Longrightarrow> rm (Plus NonDigit) (p @ s') s'"
proof (induction p)
  case Nil then show ?case by (simp add: separator_run_def)
next
  case (Cons x p)
  then have nx: "\<not> is_digit x" by (simp add: separator_run_def)
  show ?case
  proof (cases "p = []")
    case True
    with nx show ?thesis by (auto intro: rm_Plus1 rm_NonDigit)
  next
    case False
    with Cons have ih: "rm (Plus NonDigit) (p @ s') s'" by (simp add: separator_run_def)
    have st: "rm NonDigit ((x # p) @ s') (p @ s')" using nx by (auto intro: rm_NonDigit)
    have lt: "length (p @ s') < length ((x # p) @ s')" by simp
    show ?thesis by (rule rm_PlusN [OF st lt ih])
  qed
qed

lemma rm_plus_nondigit: "rm (Plus NonDigit) s s' \<longleftrightarrow> (\<exists>p. s = p @ s' \<and> separator_run p)"
  using rm_plus_nondigit_D [of "Plus NonDigit" s s'] rm_plus_nondigit_I [of _ s'] by blast

lemma rm_Group_iff: "rm (Group i r) s s' \<longleftrightarrow> rm r s s'"
  by (auto elim: rm_GroupE intro: rm_Group)

lemma rm_Seq_iff: "rm (Seq r1 r2) s s' \<longleftrightarrow> (\<exists>s1. rm r1 s s1 \<and> rm r2 s1 s')"
  by (auto elim: rm_SeqE intro: rm_Seq)

lemma rm_Alt_iff: "rm (Alt r1 r2) s s' \<longleftrightarrow> rm r1 s s' \<or> rm r2 s s'"
  by (auto elim: rm_AltE intro: rm_AltL rm_AltR)

lemma rm_LitI_iff: "rm (LitI a) s s' \<longleftrightarrow> (\<exists>x. s = x # s' \<and> lower x = lower a)"
  by (auto elim: rm_LitIE intro: rm_LitI)

lemma rm_Eos_iff: "rm Eos s s' \<longleftrightarrow> s' = s \<and> (s = [] \<or> s = [CHR 0x0A])"
  by (auto elim: rm_EosE intro: rm_Eos)

lemma rm_token_body:
  "rm token_body s s' \<longleftrightarrow>
   (\<exists>t p. s = t @ p @ s' \<and> dice_token t \<and>
      (separator_run p \<or> (p = [] \<and> (s' = [] \<or> s' = [CHR 0x0A]))))"
  (is "?L \<longleftrightarrow> ?R")
proof
  assume ?L
  then obtain s1 s2 s3 where
    1: "rm (Plus Digit) s s1" and 2: "rm (LitI (CHR ''d'')) s1 s2" and
    3: "rm (Plus Digit) s2 s3" and 4: "rm (Plus NonDigit) s3 s' \<or> rm Eos s3 s'"
    unfolding token_body_def rm_Seq_iff rm_Group_iff rm_Alt_iff by blast
  from 1 obtain a where a: "s = a @ s1" "a \<noteq> []" "list_all is_digit a"
    unfolding rm_plus_digit by blast
  from 2 obtain d where d: "s1 = d # s2" "d = CHR ''d'' \<or> d = CHR ''D''"
    unfolding rm_LitI_iff lower_d by blast
  from 3 obtain b where b: "s2 = b @ s3" "b \<noteq> []" "list_all is_digit b"
    unfolding rm_plus_digit by blast
  have tok: "dice_token (a @ d # b)"
    unfolding dice_token_def using a d b by blast
  from 4 obtain p where p: "s3 = p @ s'" "separator_run p \<or> (p = [] \<and> (s' = [] \<or> s' = [CHR 0x0A]))"
    unfolding rm_plus_nondigit rm_Eos_iff by auto
  from a d b p have "s = (a @ d # b) @ p @ s'" by simp
  with tok p(2) show ?R by blast
next
  assume ?R
  then obtain t p where s: "s = t @ p @ s'" and tok: "dice_token t"
    and p: "separator_run p \<or> (p = [] \<and> (s' = [] \<or> s' = [CHR 0x0A]))" by blast
  from tok obtain a d b where t: "t = a @ d # b" and a: "a \<noteq> []" "list_all is_digit a"
    and d: "d = CHR ''d'' \<or> d = CHR ''D''" and b: "b \<noteq> []" "list_all is_digit b"
    unfolding dice_token_def by blast
  have 1: "rm (Plus Digit) s (d # b @ p @ s')"
    unfolding rm_plus_digit using s t a by auto
  have 2: "rm (LitI (CHR ''d'')) (d # b @ p @ s') (b @ p @ s')"
    unfolding rm_LitI_iff lower_d using d by simp
  have 3: "rm (Plus Digit) (b @ p @ s') (p @ s')"
    unfolding rm_plus_digit using b by auto
  have 4: "rm (Plus NonDigit) (p @ s') s' \<or> rm Eos (p @ s') s'"
    unfolding rm_plus_nondigit rm_Eos_iff using p by auto
  from 1 2 3 4 show ?L
    unfolding token_body_def rm_Seq_iff rm_Group_iff rm_Alt_iff by blast
qed

lemma dice_token_digit: "dice_token t \<Longrightarrow> \<exists>x r. t = x # r \<and> is_digit x"
  by (auto simp: dice_token_def neq_Nil_conv)

lemma token_sequence_digit: "token_sequence s \<Longrightarrow> \<exists>x r. s = x # r \<and> is_digit x"
  by (induction rule: token_sequence.induct) (auto dest: dice_token_digit)

lemma rm_multi_D:
  "rm r s s' \<Longrightarrow> r = Plus token_body \<Longrightarrow> s' = [] \<Longrightarrow> token_sequence s"
proof (induction r s s' rule: rm.induct)
  case (rm_Plus1 r s s1)
  then have "rm token_body s []" by simp
  then show ?case unfolding rm_token_body by (auto intro: ts_end ts_sep)
next
  case (rm_PlusN r s s1 s2)
  then have body: "rm token_body s s1" and rest: "token_sequence s1" by simp_all
  from token_sequence_digit [OF rest] obtain x r' where s1: "s1 = x # r'" "is_digit x" by blast
  then have "s1 \<noteq> []" "s1 \<noteq> [CHR 0x0A]" by (auto simp: is_digit_def)
  with body obtain t p where "s = t @ p @ s1" "dice_token t" "separator_run p"
    unfolding rm_token_body by blast
  with rest show ?case by (auto intro: ts_more)
qed simp_all

lemma rm_multi_I: "token_sequence s \<Longrightarrow> rm (Plus token_body) s []"
proof (induction rule: token_sequence.induct)
  case (ts_end t)
  then have "rm token_body t []" unfolding rm_token_body by auto
  then show ?case by (rule rm_Plus1)
next
  case (ts_sep t p)
  then have "rm token_body (t @ p) []" unfolding rm_token_body by auto
  then show ?case by (rule rm_Plus1)
next
  case (ts_more t p rest)
  then have b: "rm token_body (t @ p @ rest) rest" unfolding rm_token_body by auto
  from ts_more have "t \<noteq> []" by (auto dest: dice_token_digit)
  then have lt: "length rest < length (t @ p @ rest)" by simp
  show ?case by (rule rm_PlusN [OF b lt ts_more.IH])
qed

lemma fullmatch_token_sequence:
  "fullmatch multiple_dice_regex s \<noteq> None \<longleftrightarrow> token_sequence s"
proof -
  have m: "multiple_dice_regex = Plus token_body"
    by (simp add: multiple_dice_regex_def token_body_def)
  show ?thesis
    unfolding fullmatch_rm m using rm_multi_D [of "Plus token_body" s "[]"] rm_multi_I [of s] by blast
qed

subsection \<open>Extraction is the left-to-right scan\<close>

lemma bt_plus_digit_Nil: "bt (Plus Digit) (c, []) = []"
  by (simp add: bt.simps(7))

lemma bt_plus_digit_Cons:
  "bt (Plus Digit) (c, x # xs) = (if is_digit x then bt (Plus Digit) (c, xs) @ [(c, xs)] else [])"
  by (simp add: bt.simps(7))

lemma bt_plus_digit_first:
  "(takeWhile is_digit s = [] \<longrightarrow> bt (Plus Digit) (c, s) = []) \<and>
   (takeWhile is_digit s \<noteq> [] \<longrightarrow>
      (\<exists>ys. bt (Plus Digit) (c, s) = (c, dropWhile is_digit s) # ys))"
proof (induction s)
  case Nil
  show ?case by (simp add: bt_plus_digit_Nil)
next
  case (Cons x xs)
  show ?case
  proof (cases "is_digit x")
    case False
    then show ?thesis by (simp add: bt_plus_digit_Cons)
  next
    case True
    show ?thesis
    proof (cases "takeWhile is_digit xs = []")
      case e: True
      with Cons.IH have "bt (Plus Digit) (c, xs) = []" by blast
      moreover from e have "dropWhile is_digit xs = xs"
        by (cases xs) (auto split: if_splits)
      ultimately show ?thesis using True by (simp add: bt_plus_digit_Cons)
    next
      case ne: False
      with Cons.IH obtain ys where "bt (Plus Digit) (c, xs) = (c, dropWhile is_digit xs) # ys"
        by blast
      then show ?thesis using True by (simp add: bt_plus_digit_Cons)
    qed
  qed
qed

lemma plus_digit_then:
  assumes H: "\<And>c' x xs. is_digit x \<Longrightarrow> H (c', x # xs) = []"
  shows "concat (map H (bt (Plus Digit) (c, s))) =
         (if takeWhile is_digit s = [] then [] else H (c, dropWhile is_digit s))"
proof (induction s)
  case Nil
  show ?case by (simp add: bt_plus_digit_Nil)
next
  case (Cons x xs)
  show ?case
  proof (cases "is_digit x")
    case False
    then show ?thesis by (simp add: bt_plus_digit_Cons)
  next
    case True
    show ?thesis
    proof (cases "takeWhile is_digit xs = []")
      case e: True
      then have "dropWhile is_digit xs = xs"
        by (cases xs) (auto split: if_splits)
      with e Cons.IH True show ?thesis by (simp add: bt_plus_digit_Cons)
    next
      case ne: False
      then obtain y ys where xs: "xs = y # ys" "is_digit y"
        by (cases xs) (auto split: if_splits)
      then have "H (c, xs) = []" using H by simp
      with ne Cons.IH True show ?thesis by (simp add: bt_plus_digit_Cons)
    qed
  qed
qed

lemma take_length_dropWhile:
  "take (length s - length (dropWhile P s)) s = takeWhile P s"
proof -
  have "length s = length (takeWhile P s) + length (dropWhile P s)"
    by (metis length_append takeWhile_dropWhile_id)
  then have "length s - length (dropWhile P s) = length (takeWhile P s)" by simp
  moreover have "take (length (takeWhile P s)) s = takeWhile P s"
    by (metis append_eq_conv_conj takeWhile_dropWhile_id)
  ultimately show ?thesis by simp
qed

lemma bt_group_digits_then:
  assumes H: "\<And>c' x xs. is_digit x \<Longrightarrow> bt r (c', x # xs) = []"
  shows "bt (Seq (Group i (Plus Digit)) r) (c, s) =
         (if takeWhile is_digit s = [] then []
          else bt r (c(i \<mapsto> takeWhile is_digit s), dropWhile is_digit s))"
proof -
  let ?G = "\<lambda>st. ((fst st)(i \<mapsto> take (length s - length (snd st)) s), snd st)"
  have "bt (Seq (Group i (Plus Digit)) r) (c, s) =
        concat (map (\<lambda>st. bt r (?G st)) (bt (Plus Digit) (c, s)))"
    by (simp add: comp_def)
  also have "\<dots> = (if takeWhile is_digit s = [] then []
          else bt r (?G (c, dropWhile is_digit s)))"
    by (rule plus_digit_then) (simp add: H)
  finally show ?thesis by (simp add: take_length_dropWhile)
qed

lemma bt_group_digits_first:
  "(takeWhile is_digit s = [] \<longrightarrow> bt (Group i (Plus Digit)) (c, s) = []) \<and>
   (takeWhile is_digit s \<noteq> [] \<longrightarrow>
      (\<exists>ys. bt (Group i (Plus Digit)) (c, s) =
         (c(i \<mapsto> takeWhile is_digit s), dropWhile is_digit s) # ys))"
proof (cases "takeWhile is_digit s = []")
  case True
  then have "bt (Plus Digit) (c, s) = []" using bt_plus_digit_first [of s c] by blast
  with True show ?thesis by simp
next
  case False
  then obtain ys where "bt (Plus Digit) (c, s) = (c, dropWhile is_digit s) # ys"
    using bt_plus_digit_first [of s c] by blast
  with False show ?thesis by (simp add: take_length_dropWhile)
qed

lemma bt_lit_group_digit:
  "is_digit x \<Longrightarrow> bt (Seq (LitI (CHR ''d'')) r) (c', x # xs) = []"
  by (simp add: digit_not_d)

lemma match_here_single:
  "match_here single_dice_regex s =
     map_option (\<lambda>(a, b, rest). (Map.empty(1 \<mapsto> a, 2 \<mapsto> b), rest)) (token_at s)"
proof -
  let ?R = "Seq (LitI (CHR ''d'')) (Group 2 (Plus Digit))"
  have 1: "bt single_dice_regex (Map.empty, s) =
        (if takeWhile is_digit s = [] then []
         else bt ?R (Map.empty(1 \<mapsto> takeWhile is_digit s), dropWhile is_digit s))"
    unfolding single_dice_regex_def
    by (rule bt_group_digits_then) (rule bt_lit_group_digit)
  show ?thesis
  proof (cases "dropWhile is_digit s")
    case Nil
    have "bt single_dice_regex (Map.empty, s) = []" unfolding 1 Nil by simp
    moreover have "token_at s = None" unfolding token_at_def Nil by simp
    ultimately show ?thesis by (simp add: match_here_def)
  next
    case (Cons d r)
    have 2: "bt ?R (c, d # r) =
        (if lower d = lower (CHR ''d'') then bt (Group 2 (Plus Digit)) (c, r) else [])" for c
      by simp
    show ?thesis
    proof (cases "takeWhile is_digit s \<noteq> [] \<and> (d = CHR ''d'' \<or> d = CHR ''D'') \<and> takeWhile is_digit r \<noteq> []")
      case True
      then have t: "token_at s = Some (takeWhile is_digit s, takeWhile is_digit r, dropWhile is_digit r)"
        by (simp add: token_at_def Cons)
      from True have ld: "lower d = lower (CHR ''d'')" unfolding lower_d by simp
      from True have ne: "takeWhile is_digit s \<noteq> []" "takeWhile is_digit r \<noteq> []"
        by simp_all
      obtain ys where g: "bt (Group 2 (Plus Digit)) (Map.empty(1 \<mapsto> takeWhile is_digit s), r) =
           (Map.empty(1 \<mapsto> takeWhile is_digit s, 2 \<mapsto> takeWhile is_digit r), dropWhile is_digit r) # ys"
        using bt_group_digits_first [of r 2 "Map.empty(1 \<mapsto> takeWhile is_digit s)"] ne(2)
        by blast
      have b: "bt single_dice_regex (Map.empty, s) =
           bt (Group 2 (Plus Digit)) (Map.empty(1 \<mapsto> takeWhile is_digit s), r)"
        unfolding 1 Cons 2 using ne(1) ld by (simp only: if_False if_True simp_thms)
      have "match_here single_dice_regex s =
           Some (Map.empty(1 \<mapsto> takeWhile is_digit s, 2 \<mapsto> takeWhile is_digit r), dropWhile is_digit r)"
        unfolding match_here_def b by (subst g) (simp only: list.case)
      then show ?thesis by (simp only: t option.map prod.case)
    next
      case False
      then have t: "token_at s = None" by (simp add: token_at_def Cons)
      have "bt single_dice_regex (Map.empty, s) = []"
      proof (cases "takeWhile is_digit s = []")
        case True
        then show ?thesis unfolding 1 by simp
      next
        case a: False
        show ?thesis
        proof (cases "d = CHR ''d'' \<or> d = CHR ''D''")
          case d: True
          with a False have "takeWhile is_digit r = []" by simp
          then have "bt (Group 2 (Plus Digit)) (Map.empty(1 \<mapsto> takeWhile is_digit s), r) = []"
            using bt_group_digits_first [of r 2 "Map.empty(1 \<mapsto> takeWhile is_digit s)"]
            by blast
          then show ?thesis unfolding 1 Cons 2 by simp
        next
          case d: False
          then show ?thesis unfolding 1 Cons 2 lower_d by simp
        qed
      qed
      with t show ?thesis by (simp add: match_here_def)
    qed
  qed
qed

lemma findall_scan: "findall single_dice_regex s = scan_tokens s"
proof (induction s rule: scan_tokens.induct)
  case (1 s)
  show ?case
  proof (cases "token_at s")
    case None
    show ?thesis
    proof (cases s)
      case Nil
      show ?thesis
        unfolding findall.simps [of _ s] scan_tokens.simps [of s] match_here_single None
        by (simp add: Nil)
    next
      case (Cons x xs)
      show ?thesis
        unfolding findall.simps [of _ s] scan_tokens.simps [of s] match_here_single None
        using "1.IH"(1) [OF None Cons] by (simp add: Cons)
    qed
  next
    case (Some t)
    obtain a b rest where t: "t = (a, b, rest)" by (cases t)
    from Some t have tok: "token_at s = Some (a, b, rest)" by simp
    from "1.IH"(2) [OF tok refl refl] have ih: "findall single_dice_regex rest = scan_tokens rest" .
    from token_at_shorter [OF tok] have lt: "length rest < length s" .
    show ?thesis
      unfolding findall.simps [of _ s] scan_tokens.simps [of s] match_here_single tok
      by (simp add: lt ih group_def)
  qed
qed

subsection \<open>Numerals, listings and their readers\<close>

lemma is_digit_char_of: "k < 10 \<Longrightarrow> is_digit (char_of (48 + (k::nat)))"
  by (simp add: is_digit_def of_char_of)

lemma digit_val_char_of: "k < 10 \<Longrightarrow> digit_val (char_of (48 + (k::nat))) = k"
  by (simp add: digit_val_def of_char_of)

lemma str_nat_digits: "str_nat n \<noteq> [] \<and> list_all is_digit (str_nat n)"
proof (induction n rule: str_nat.induct)
  case (1 n)
  show ?case
  proof (cases "n < 10")
    case True
    then show ?thesis by (simp add: str_nat.simps [of n] is_digit_char_of)
  next
    case False
    with "1.IH" have "list_all is_digit (str_nat (n div 10))" by simp
    moreover have "is_digit (char_of (48 + n mod 10))" by (rule is_digit_char_of) simp
    ultimately show ?thesis using False by (simp add: str_nat.simps [of n])
  qed
qed

lemma digits_value_snoc: "digits_value (s @ [c]) = 10 * digits_value s + int (digit_val c)"
  by (simp add: digits_value_def)

lemma digits_value_str_nat: "digits_value (str_nat n) = int n"
proof (induction n rule: str_nat.induct)
  case (1 n)
  show ?case
  proof (cases "n < 10")
    case True
    then show ?thesis by (simp add: str_nat.simps [of n] digits_value_def digit_val_char_of)
  next
    case False
    with "1.IH" have ih: "digits_value (str_nat (n div 10)) = int (n div 10)" by simp
    have dv: "digit_val (char_of (48 + n mod 10)) = n mod 10" by (rule digit_val_char_of) simp
    have "int (10 * (n div 10) + n mod 10) = int n" by simp
    then have ar: "10 * int (n div 10) + int (n mod 10) = int n"
      by (simp only: of_nat_add of_nat_mult of_nat_numeral)
    from False have "digits_value (str_nat n) =
        10 * digits_value (str_nat (n div 10)) + int (digit_val (char_of (48 + n mod 10)))"
      by (simp add: str_nat.simps [of n] digits_value_snoc)
    then show ?thesis by (simp only: ih dv ar)
  qed
qed

lemma py_int_digits: "s \<noteq> [] \<Longrightarrow> list_all is_digit s \<Longrightarrow> py_int s = Inr (digits_value s)"
  by (simp add: py_int_def digits_value_def)

lemma py_int_str_nat: "py_int (str_nat n) = Inr (int n)"
  using str_nat_digits [of n] by (simp add: py_int_digits digits_value_str_nat)

lemma foldl_digits_nonneg: "0 \<le> a \<Longrightarrow> 0 \<le> foldl (\<lambda>a c. 10 * a + int (digit_val c)) a s"
  by (induction s arbitrary: a) simp_all

lemma py_int_nonneg: "py_int s = Inr n \<Longrightarrow> 0 \<le> n"
  by (auto simp: py_int_def foldl_digits_nonneg split: if_splits)

lemma minus_not_digit: "\<not> is_digit (CHR ''-'')"
  by (simp add: is_digit_def)

lemma comma_not_digit: "\<not> is_digit (CHR '','')"
  by (simp add: is_digit_def)

lemma read_int_str_int: "read_int (str_int i) = Some i"
proof (cases "i < 0")
  case True
  then show ?thesis by (simp add: read_int_def str_int_def py_int_str_nat)
next
  case False
  obtain x xs where s: "str_nat (nat i) = x # xs" and d: "is_digit x"
    using str_nat_digits [of "nat i"] by (cases "str_nat (nat i)") auto
  from d have "x \<noteq> CHR ''-''" using minus_not_digit by auto
  moreover have "py_int (x # xs) = Inr i"
    using py_int_str_nat [of "nat i"] False by (simp add: s)
  ultimately show ?thesis using False by (simp add: read_int_def str_int_def s)
qed

lemma str_int_no_comma: "CHR '','' \<notin> set (str_int i)"
proof -
  have "list_all is_digit (str_nat n)" for n using str_nat_digits [of n] by simp
  then have "CHR '','' \<notin> set (str_nat n)" for n
    using comma_not_digit by (auto simp: list_all_iff)
  then show ?thesis by (simp add: str_int_def)
qed

lemma fields_join:
  "fields (join '', '' (map str_int (x # xs))) = map str_int (x # xs)"
proof (induction xs arbitrary: x)
  case Nil
  have d: "dropWhile (\<lambda>c. c \<noteq> CHR '','') (str_int x) = []"
    using str_int_no_comma [of x] by (auto simp: dropWhile_eq_Nil_conv)
  have "fields (str_int x) = [str_int x]"
    by (subst fields.simps) (simp only: d list.case)
  then show ?case by simp
next
  case (Cons y ys)
  let ?P = "\<lambda>c. c \<noteq> CHR '',''"
  let ?rest = "join '', '' (map str_int (y # ys))"
  have all: "\<forall>c \<in> set (str_int x). ?P c" using str_int_no_comma [of x] by auto
  have d: "dropWhile ?P (str_int x @ '', '' @ ?rest) = CHR '','' # CHR '' '' # ?rest"
    using all by (simp add: dropWhile_append2)
  have t: "takeWhile ?P (str_int x @ '', '' @ ?rest) = str_int x"
    using all by (simp add: takeWhile_append2)
  have dr: "drop 1 (CHR '' '' # ?rest) = ?rest" by simp
  have "fields (str_int x @ '', '' @ ?rest) = str_int x # fields ?rest"
    by (subst fields.simps) (simp only: d t list.case dr)
  with Cons.IH [of y] show ?case by simp
qed

lemma those_map_read_int: "those (map read_int (map str_int xs)) = Some xs"
  by (induction xs) (simp_all add: read_int_str_int)

lemma str_int_not_Nil: "str_int i \<noteq> []"
  using str_nat_digits by (simp add: str_int_def)

lemma read_listing_join: "read_listing (join '', '' (map str_int xs)) = Some xs"
proof (cases xs)
  case Nil
  then show ?thesis by (simp add: read_listing_def)
next
  case (Cons x ys)
  have "join '', '' (map str_int (x # ys)) \<noteq> []"
    using str_int_not_Nil [of x] by (cases ys) simp_all
  then show ?thesis
    unfolding Cons read_listing_def by (simp only: fields_join those_map_read_int if_False)
qed

lemma after_found:
  "m = y # m' \<Longrightarrow> y \<notin> set p \<Longrightarrow> after m (p @ m @ r) = Some r"
proof (induction p)
  case Nil
  then show ?case by simp
next
  case (Cons x p)
  then have xy: "x \<noteq> y" and yp: "y \<notin> set p" by auto
  from xy have ne: "take (length m) (x # (p @ m @ r)) \<noteq> m" using Cons.prems(1) by simp
  from Cons.IH [OF Cons.prems(1) yp] have ih: "after m (p @ m @ r) = Some r" .
  have "after m (x # (p @ m @ r)) = after m (p @ m @ r)"
    using ne by (simp only: after.simps if_False)
  with ih show ?case by simp
qed

subsection \<open>The loop of get_items\<close>

lemma roll_loop_bad: "n < 1 \<Longrightarrow> roll_loop (Suc k) n g = (Inl ValueError, g)"
  by (simp add: randint_def)

lemma rolls_in_range:
  "1 \<le> n \<Longrightarrow> \<forall>x \<in> set (map (\<lambda>i. 1 + int (f i) mod n) is). 1 \<le> x \<and> x \<le> n"
proof
  fix x assume n: "1 \<le> n" and "x \<in> set (map (\<lambda>i. 1 + int (f i) mod n) is)"
  then obtain i where x: "x = 1 + int (f i) mod n" by auto
  have "0 \<le> int (f i) mod n" "int (f i) mod n < n" using n by simp_all
  with x show "1 \<le> x \<and> x \<le> n" by simp
qed

lemma roll_dice_Inr:
  assumes "roll_dice nd ns g = (Inr (stotal, rolls), g')"
  shows "stotal = sum_list rolls \<and> length rolls = nat nd \<and> (\<forall>x \<in> set rolls. 1 \<le> x \<and> x \<le> ns)"
proof (cases "1 \<le> ns")
  case True
  from assms have r: "rolls = map (\<lambda>i. 1 + int (source g (drawn g + i)) mod ns) [0..<nat nd]"
    and t: "stotal = sum_list rolls"
    by (auto simp: roll_dice_def roll_loop_ok [OF True])
  from r have "length rolls = nat nd" by simp
  moreover have "\<forall>x \<in> set rolls. 1 \<le> x \<and> x \<le> ns"
    unfolding r by (rule rolls_in_range [OF True])
  ultimately show ?thesis using t by blast
next
  case False
  then have bad: "ns < 1" by simp
  show ?thesis
  proof (cases "nat nd")
    case 0
    with assms show ?thesis by (simp add: roll_dice_def)
  next
    case (Suc k)
    with assms roll_loop_bad [OF bad] show ?thesis by (simp add: roll_dice_def)
  qed
qed

lemma get_items_loop_Inr:
  "get_items_loop e ms (res, tot, all) g = (Inr (res', tot', all'), g') \<Longrightarrow>
   \<exists>gs. list_all2 group_ok ms gs \<and>
        res' = res @ map (group_item e) gs \<and>
        tot' = tot + sum_list (map (\<lambda>gr. sum_list (snd gr)) gs) \<and>
        all' = all @ concat (map snd gs)"
proof (induction ms arbitrary: res tot all g)
  case Nil
  then show ?case by simp
next
  case (Cons m ms)
  from Cons.prems obtain nd where nd: "py_int (fst m) = Inr nd"
    by (cases "py_int (fst m)") simp_all
  from Cons.prems nd obtain ns where ns: "py_int (snd m) = Inr ns"
    by (cases "py_int (snd m)") simp_all
  obtain r g1 where rd: "roll_dice nd ns g = (r, g1)" by (cases "roll_dice nd ns g")
  from Cons.prems nd ns rd obtain sr rolls where r: "r = Inr (sr, rolls)"
    by (cases r) auto
  from Cons.prems nd ns rd r have rest:
    "get_items_loop e ms (res @ [get_item_from_rolls e rolls sr (Some ns)], tot + sr, all @ rolls) g1 =
       (Inr (res', tot', all'), g')"
    by simp
  from roll_dice_Inr [OF rd [unfolded r]] have sr: "sr = sum_list rolls"
    and len: "length rolls = nat nd" and rng: "\<forall>x \<in> set rolls. 1 \<le> x \<and> x \<le> ns"
    by simp_all
  from py_int_nonneg [OF nd] len have "int (length rolls) = nd" by simp
  with nd ns rng have ok: "group_ok m (ns, rolls)" by (simp add: group_ok_def)
  from Cons.IH [OF rest] obtain gs where gs: "list_all2 group_ok ms gs"
    "res' = (res @ [get_item_from_rolls e rolls sr (Some ns)]) @ map (group_item e) gs"
    "tot' = (tot + sr) + sum_list (map (\<lambda>gr. sum_list (snd gr)) gs)"
    "all' = (all @ rolls) @ concat (map snd gs)"
    by blast
  have "list_all2 group_ok (m # ms) ((ns, rolls) # gs)" using ok gs(1) by simp
  moreover have "res' = res @ map (group_item e) ((ns, rolls) # gs)"
    using gs(2) sr by (simp add: group_item_def)
  moreover have "tot' = tot + sum_list (map (\<lambda>gr. sum_list (snd gr)) ((ns, rolls) # gs))"
    using gs(3) sr by simp
  moreover have "all' = all @ concat (map snd ((ns, rolls) # gs))"
    using gs(4) by simp
  ultimately show ?case by blast
qed

lemma get_items_groups:
  assumes "get_items e q g = (Inr items, g')"
  shows "\<exists>gs. list_all2 group_ok (findall single_dice_regex q) gs \<and>
           items = map (group_item e) gs @ (if 1 < length gs then [summary_item e gs] else [])"
proof -
  let ?ms = "findall single_dice_regex q"
  obtain r g1 where l: "get_items_loop e ?ms ([], 0, []) g = (r, g1)"
    by (cases "get_items_loop e ?ms ([], 0, []) g")
  from assms l obtain res tot all where r: "r = Inr (res, tot, all)"
    by (cases r) (auto simp: get_items_def)
  from get_items_loop_Inr [OF l [unfolded r]] obtain gs where gs: "list_all2 group_ok ?ms gs"
    "res = map (group_item e) gs" "tot = sum_list (map (\<lambda>gr. sum_list (snd gr)) gs)"
    "all = concat (map snd gs)"
    by auto
  from gs(1) have len: "length ?ms = length gs" by (rule list_all2_lengthD)
  from assms l r have "items = (if 1 < length ?ms then res @ [get_item_from_rolls e all tot None] else res)"
    by (simp add: get_items_def)
  then have "items = map (group_item e) gs @ (if 1 < length gs then [summary_item e gs] else [])"
    unfolding len gs(2,3,4) summary_item_def by simp
  with gs(1) show ?thesis by blast
qed

subsection \<open>What the entries display\<close>

lemma str_int_chars: "c \<in> set (str_int i) \<Longrightarrow> is_digit c \<or> c = CHR ''-''"
proof -
  assume c: "c \<in> set (str_int i)"
  have d: "\<forall>x \<in> set (str_nat n). is_digit x" for n
    using str_nat_digits [of n] by (simp add: list_all_iff)
  show ?thesis
  proof (cases "i < 0")
    case True
    with c have "c = CHR ''-'' \<or> c \<in> set (str_nat (nat (- i)))" by (simp add: str_int_def)
    with d [of "nat (- i)"] show ?thesis by blast
  next
    case False
    with c have "c \<in> set (str_nat (nat i))" by (simp add: str_int_def)
    with d [of "nat i"] show ?thesis by blast
  qed
qed

lemma T_not_in_str_int: "CHR ''T'' \<notin> set (str_int i)"
proof
  assume "CHR ''T'' \<in> set (str_int i)"
  from str_int_chars [OF this] show False by (simp add: is_digit_def)
qed

lemma listed_rolls_item: "listed_rolls (get_item_from_rolls e rolls stotal ns) = Some rolls"
proof -
  have "after ''Rolls: '' ([] @ ''Rolls: '' @ join '', '' (map str_int rolls)) =
        Some (join '', '' (map str_int rolls))"
    by (rule after_found [where y = "CHR ''R''" and m' = "''olls: ''"]) simp_all
  then show ?thesis
    by (simp add: listed_rolls_def get_item_from_rolls_def read_listing_join)
qed

lemma shown_total_item: "shown_total (get_item_from_rolls e rolls stotal ns) = Some stotal"
proof (cases "truthy ns")
  case True
  then obtain n where ns: "ns = Some n" by (cases ns) (simp_all add: truthy_def)
  let ?p = "''Rolled '' @ str_int (int (length rolls)) @ ''d'' @ str_int n @ '' - ''"
  have "after ''Total: '' (?p @ ''Total: '' @ str_int stotal) = Some (str_int stotal)"
    by (rule after_found [where y = "CHR ''T''" and m' = "''otal: ''"])
       (simp_all add: T_not_in_str_int)
  moreover have "item_text (get_item_from_rolls e rolls stotal ns) = ?p @ ''Total: '' @ str_int stotal"
    using True by (simp add: get_item_from_rolls_def ns fmt_sides_def)
  ultimately show ?thesis by (simp add: shown_total_def read_int_str_int)
next
  case False
  have "after ''Total: '' (''Overall '' @ ''Total: '' @ str_int stotal) = Some (str_int stotal)"
    by (rule after_found [where y = "CHR ''T''" and m' = "''otal: ''"]) simp_all
  moreover have "item_text (get_item_from_rolls e rolls stotal ns) =
      ''Overall '' @ ''Total: '' @ str_int stotal"
    using False by (simp add: get_item_from_rolls_def)
  ultimately show ?thesis by (simp add: shown_total_def read_int_str_int)
qed

lemma sum_list_concat_groups:
  "sum_list (concat (map snd gs)) = sum_list (map (\<lambda>gr. sum_list (snd gr)) gs)"
  by (induction gs) simp_all

subsection \<open>Validated queries and the query handler\<close>










lemma roll_dice_zero_sides: "0 < count \<Longrightarrow> roll_dice count 0 g = (Inl ValueError, g)"
proof -
  assume "0 < count"
  then obtain k where k: "nat count = Suc k" by (cases "nat count") simp_all
  have "roll_loop (Suc k) 0 g = (Inl ValueError, g)" by (rule roll_loop_bad) simp
  then show ?thesis unfolding roll_dice_def k by simp
qed

lemma pair_fst_snd: "fst p = a \<Longrightarrow> p = (a, snd p)"
  by (cases p) simp

subsection \<open>Entries for particular tokens\<close>

lemma summary_item_text:
  "item_text (summary_item e gs) =
     ''Overall Total: '' @ str_int (sum_list (map (\<lambda>gr. sum_list (snd gr)) gs))"
  by (simp add: summary_item_def get_item_from_rolls_def truthy_def)

lemma summary_item_subtext:
  "item_subtext (summary_item e gs) =
     ''Rolls: '' @ join '', '' (map str_int (concat (map snd gs)))"
  by (simp add: summary_item_def get_item_from_rolls_def)

lemma str_int_0: "str_int 0 = ''0''"
  by code_simp

lemma py_int_0: "py_int ''0'' = Inr 0"
  by code_simp

lemma findall_0d0: "findall single_dice_regex ''0d0'' = [(''0'', ''0'')]"
  by code_simp

lemma roll_dice_zero_count: "roll_dice 0 sides g = (Inr (0, []), g)"
  by (simp add: roll_dice_def)

lemma group_headline:
  "fst gr \<noteq> 0 \<Longrightarrow>
   item_text (group_item e gr) =
     ''Rolled '' @ str_int (int (length (snd gr))) @ ''d'' @ str_int (fst gr) @
     '' - Total: '' @ str_int (sum_list (snd gr))"
  by (simp add: group_item_def get_item_from_rolls_def truthy_def fmt_sides_def)

lemma group_subtext:
  "item_subtext (group_item e gr) = ''Rolls: '' @ join '', '' (map str_int (snd gr))"
  by (simp add: group_item_def get_item_from_rolls_def)





section \<open>The claims\<close>

text \<open>
  Claim C1. For every query and every entry that \<open>get_items\<close> returns, a group
  entry or the overall-total entry, the integer displayed after \<^verbatim>\<open>Total:\<close> in the
  headline is the sum of the integers listed, joined by commas, in the subtext.
  \<open>shown_total\<close> and \<open>listed_rolls\<close> read the two texts back.
\<close>

theorem displayed_total_is_sum_of_listed_rolls:
  assumes "get_items e q g = (Inr items, g')" and "it \<in> set items"
  shows "\<exists>rolls. listed_rolls it = Some rolls \<and> shown_total it = Some (sum_list rolls)"
proof -
  from get_items_groups [OF assms(1)] obtain gs where
    items: "items = map (group_item e) gs @ (if 1 < length gs then [summary_item e gs] else [])"
    by blast
  with assms(2) have "(\<exists>gr. it = group_item e gr) \<or> it = summary_item e gs"
    by (auto split: if_splits)
  then show ?thesis
  proof
    assume "\<exists>gr. it = group_item e gr"
    then obtain gr where "it = group_item e gr" by blast
    then have "listed_rolls it = Some (snd gr)" "shown_total it = Some (sum_list (snd gr))"
      by (simp_all add: group_item_def listed_rolls_item shown_total_item)
    then show ?thesis by blast
  next
    assume "it = summary_item e gs"
    then have "listed_rolls it = Some (concat (map snd gs))"
      "shown_total it = Some (sum_list (map (\<lambda>gr. sum_list (snd gr)) gs))"
      by (simp_all add: summary_item_def listed_rolls_item shown_total_item)
    moreover have "sum_list (concat (map snd gs)) = sum_list (map (\<lambda>gr. sum_list (snd gr)) gs)"
      by (rule sum_list_concat_groups)
    ultimately show ?thesis by simp
  qed
qed

theorem displayed_total_is_sum_of_listed_rolls_witness:
  "fst (get_items demo_env ''2d6 1d20'' demo_rng) =
     Inr [\<lparr>item_id = ''Dice Roll'', item_icon = ''icons/d6.svg'',
            item_text = ''Rolled 2d6 - Total: 9'', item_subtext = ''Rolls: 4, 5'',
            item_actions = [ClipAction ''Copy total to clipboard'' ''9'',
                            ClipAction ''Copy rolls to clipboard'' ''4, 5'']\<rparr>,
          \<lparr>item_id = ''Dice Roll'', item_icon = ''icons/d20.svg'',
            item_text = ''Rolled 1d20 - Total: 18'', item_subtext = ''Rolls: 18'',
            item_actions = [ClipAction ''Copy total to clipboard'' ''18'',
                            ClipAction ''Copy rolls to clipboard'' ''18'']\<rparr>,
          \<lparr>item_id = ''Dice Roll'', item_icon = ''icons/dice.svg'',
            item_text = ''Overall Total: 27'', item_subtext = ''Rolls: 4, 5, 18'',
            item_actions = [ClipAction ''Copy total to clipboard'' ''27'',
                            ClipAction ''Copy rolls to clipboard'' ''4, 5, 18'']\<rparr>] \<and>
   listed_rolls \<lparr>item_id = ''Dice Roll'', item_icon = ''icons/dice.svg'',
            item_text = ''Overall Total: 27'', item_subtext = ''Rolls: 4, 5, 18'',
            item_actions = [ClipAction ''Copy total to clipboard'' ''27'',
                            ClipAction ''Copy rolls to clipboard'' ''4, 5, 18'']\<rparr> = Some [4, 5, 18] \<and>
   shown_total \<lparr>item_id = ''Dice Roll'', item_icon = ''icons/dice.svg'',
            item_text = ''Overall Total: 27'', item_subtext = ''Rolls: 4, 5, 18'',
            item_actions = [ClipAction ''Copy total to clipboard'' ''27'',
                            ClipAction ''Copy rolls to clipboard'' ''4, 5, 18'']\<rparr> = Some 27"
proof -
  let ?i1 = "\<lparr>item_id = ''Dice Roll'', item_icon = ''icons/d6.svg'',
            item_text = ''Rolled 2d6 - Total: 9'', item_subtext = ''Rolls: 4, 5'',
            item_actions = [ClipAction ''Copy total to clipboard'' ''9'',
                            ClipAction ''Copy rolls to clipboard'' ''4, 5'']\<rparr>"
  let ?i2 = "\<lparr>item_id = ''Dice Roll'', item_icon = ''icons/d20.svg'',
            item_text = ''Rolled 1d20 - Total: 18'', item_subtext = ''Rolls: 18'',
            item_actions = [ClipAction ''Copy total to clipboard'' ''18'',
                            ClipAction ''Copy rolls to clipboard'' ''18'']\<rparr>"
  let ?i3 = "\<lparr>item_id = ''Dice Roll'', item_icon = ''icons/dice.svg'',
            item_text = ''Overall Total: 27'', item_subtext = ''Rolls: 4, 5, 18'',
            item_actions = [ClipAction ''Copy total to clipboard'' ''27'',
                            ClipAction ''Copy rolls to clipboard'' ''4, 5, 18'']\<rparr>"
  have run: "fst (get_items demo_env ''2d6 1d20'' demo_rng) = Inr [?i1, ?i2, ?i3]"
    by code_simp
  have mem: "?i3 \<in> set [?i1, ?i2, ?i3]" by simp
  from displayed_total_is_sum_of_listed_rolls [OF pair_fst_snd [OF run] mem]
  obtain rolls where l: "listed_rolls ?i3 = Some rolls"
    and t: "shown_total ?i3 = Some (sum_list rolls)" by blast
  have "listed_rolls ?i3 = Some [4, 5, 18]" by code_simp
  with l have "rolls = [4, 5, 18]" by simp
  with l t run show ?thesis by simp
qed

text \<open>
  Claim C2. For every count \<open>\<ge> 0\<close> and sides \<open>\<ge> 1\<close>, \<open>roll_dice\<close> returns a total
  and a list of outcomes without raising: the list has exactly \<open>count\<close> elements, each
  in the inclusive range \<open>[1, sides]\<close>, the total is their sum, and the \<open>i\<close>-th element
  of the list is the value made from the \<open>i\<close>-th raw value drawn from the random
  source, so the list is in generation order.
\<close>

theorem roll_dice_spec:
  assumes "0 \<le> count" and "1 \<le> sides"
  shows "\<exists>total outcomes.
           roll_dice count sides g = (Inr (total, outcomes), g\<lparr>drawn := drawn g + nat count\<rparr>) \<and>
           int (length outcomes) = count \<and>
           (\<forall>x \<in> set outcomes. 1 \<le> x \<and> x \<le> sides) \<and>
           total = sum_list outcomes \<and>
           (\<forall>i < length outcomes. outcomes ! i = 1 + int (source g (drawn g + i)) mod sides)"
proof -
  let ?rolls = "map (\<lambda>i. 1 + int (source g (drawn g + i)) mod sides) [0..<nat count]"
  have run: "roll_dice count sides g = (Inr (sum_list ?rolls, ?rolls), g\<lparr>drawn := drawn g + nat count\<rparr>)"
    using assms(2) by (simp add: roll_dice_def roll_loop_ok)
  have len: "int (length ?rolls) = count"
    using assms(1) by simp
  have range: "\<forall>x \<in> set ?rolls. 1 \<le> x \<and> x \<le> sides"
    by (rule rolls_in_range [OF assms(2)])
  have order: "\<forall>i < length ?rolls. ?rolls ! i = 1 + int (source g (drawn g + i)) mod sides"
    by simp
  from run len range order show ?thesis by blast
qed

theorem roll_dice_spec_witness:
  "(0::int) \<le> 3 \<and> (1::int) \<le> 6 \<and>
   roll_dice 3 6 \<lparr>source = (\<lambda>i. 7 * i + 3), drawn = 0\<rparr> =
     (Inr (15, [4, 5, 6]), \<lparr>source = (\<lambda>i. 7 * i + 3), drawn = 3\<rparr>)"
proof -
  let ?g = "\<lparr>source = (\<lambda>i. 7 * i + 3), drawn = 0\<rparr>"
  have h: "(0::int) \<le> 3" "(1::int) \<le> 6" by simp_all
  from roll_dice_spec [OF h, of ?g]
  obtain total outcomes where
    r: "roll_dice 3 6 ?g = (Inr (total, outcomes), ?g\<lparr>drawn := drawn ?g + nat 3\<rparr>)"
    and l: "int (length outcomes) = 3"
    and t: "total = sum_list outcomes"
    and o: "\<forall>i < length outcomes. outcomes ! i = 1 + int (source ?g (drawn ?g + i)) mod 6"
    by blast
  from l have l3: "length outcomes = 3" by simp
  then obtain a b c where abc: "outcomes = [a, b, c]"
    by (auto simp: length_Suc_conv numeral_3_eq_3)
  from o l3 have "outcomes ! 0 = 4" "outcomes ! 1 = 5" "outcomes ! 2 = 6" by simp_all
  with abc have "outcomes = [4, 5, 6]" by simp
  with r t show ?thesis by simp
qed

text \<open>
  Claim C3. When \<open>get_items\<close> returns, its entries are one group entry for each
  matched token, in match order (\<open>group_ok\<close> relates the token to the side count and
  the rolls of its group), followed by exactly one overall-total entry if and only if
  more than one token matched. The rolls of the overall-total entry are the
  concatenation of the rolls of the groups in match order and its total is the sum of
  the totals of the groups. With a single matched token the list is the group entry
  alone.
\<close>

theorem get_items_entries:
  assumes "get_items e q g = (Inr items, g')"
  shows "\<exists>gs. list_all2 group_ok (findall single_dice_regex q) gs \<and>
           items = map (group_item e) gs @
                   (if 1 < length (findall single_dice_regex q) then [summary_item e gs] else []) \<and>
           item_text (summary_item e gs) =
             ''Overall Total: '' @ str_int (sum_list (map (\<lambda>gr. sum_list (snd gr)) gs)) \<and>
           item_subtext (summary_item e gs) =
             ''Rolls: '' @ join '', '' (map str_int (concat (map snd gs))) \<and>
           listed_rolls (summary_item e gs) = Some (concat (map snd gs)) \<and>
           shown_total (summary_item e gs) = Some (sum_list (map (\<lambda>gr. sum_list (snd gr)) gs))"
proof -
  from get_items_groups [OF assms] obtain gs where
    ok: "list_all2 group_ok (findall single_dice_regex q) gs" and
    items: "items = map (group_item e) gs @ (if 1 < length gs then [summary_item e gs] else [])"
    by blast
  from ok have len: "length (findall single_dice_regex q) = length gs" by (rule list_all2_lengthD)
  have l: "listed_rolls (summary_item e gs) = Some (concat (map snd gs))"
    by (simp add: summary_item_def listed_rolls_item)
  have t: "shown_total (summary_item e gs) = Some (sum_list (map (\<lambda>gr. sum_list (snd gr)) gs))"
    by (simp add: summary_item_def shown_total_item)
  from ok items len l t summary_item_text [of e gs] summary_item_subtext [of e gs]
  show ?thesis by (simp only: len) blast
qed

theorem get_items_entries_witness:
  "fst (get_items demo_env ''2d6 1d20'' demo_rng) =
     Inr [\<lparr>item_id = ''Dice Roll'', item_icon = ''icons/d6.svg'',
            item_text = ''Rolled 2d6 - Total: 9'', item_subtext = ''Rolls: 4, 5'',
            item_actions = [ClipAction ''Copy total to clipboard'' ''9'',
                            ClipAction ''Copy rolls to clipboard'' ''4, 5'']\<rparr>,
          \<lparr>item_id = ''Dice Roll'', item_icon = ''icons/d20.svg'',
            item_text = ''Rolled 1d20 - Total: 18'', item_subtext = ''Rolls: 18'',
            item_actions = [ClipAction ''Copy total to clipboard'' ''18'',
                            ClipAction ''Copy rolls to clipboard'' ''18'']\<rparr>,
          \<lparr>item_id = ''Dice Roll'', item_icon = ''icons/dice.svg'',
            item_text = ''Overall Total: 27'', item_subtext = ''Rolls: 4, 5, 18'',
            item_actions = [ClipAction ''Copy total to clipboard'' ''27'',
                            ClipAction ''Copy rolls to clipboard'' ''4, 5, 18'']\<rparr>] \<and>
   findall single_dice_regex ''2d6 1d20'' = [(''2'', ''6''), (''1'', ''20'')] \<and>
   (\<exists>gs. length gs = 2 \<and>
      fst (get_items demo_env ''2d6 1d20'' demo_rng) =
        Inr (map (group_item demo_env) gs @ [summary_item demo_env gs]))"
proof -
  let ?i1 = "\<lparr>item_id = ''Dice Roll'', item_icon = ''icons/d6.svg'',
            item_text = ''Rolled 2d6 - Total: 9'', item_subtext = ''Rolls: 4, 5'',
            item_actions = [ClipAction ''Copy total to clipboard'' ''9'',
                            ClipAction ''Copy rolls to clipboard'' ''4, 5'']\<rparr>"
  let ?i2 = "\<lparr>item_id = ''Dice Roll'', item_icon = ''icons/d20.svg'',
            item_text = ''Rolled 1d20 - Total: 18'', item_subtext = ''Rolls: 18'',
            item_actions = [ClipAction ''Copy total to clipboard'' ''18'',
                            ClipAction ''Copy rolls to clipboard'' ''18'']\<rparr>"
  let ?i3 = "\<lparr>item_id = ''Dice Roll'', item_icon = ''icons/dice.svg'',
            item_text = ''Overall Total: 27'', item_subtext = ''Rolls: 4, 5, 18'',
            item_actions = [ClipAction ''Copy total to clipboard'' ''27'',
                            ClipAction ''Copy rolls to clipboard'' ''4, 5, 18'']\<rparr>"
  have run: "fst (get_items demo_env ''2d6 1d20'' demo_rng) = Inr [?i1, ?i2, ?i3]"
    by code_simp
  have ms: "findall single_dice_regex ''2d6 1d20'' = [(''2'', ''6''), (''1'', ''20'')]"
    by code_simp
  from get_items_entries [OF pair_fst_snd [OF run]] obtain gs where
    ok: "list_all2 group_ok (findall single_dice_regex ''2d6 1d20'') gs" and
    items: "[?i1, ?i2, ?i3] = map (group_item demo_env) gs @
              (if 1 < length (findall single_dice_regex ''2d6 1d20'')
               then [summary_item demo_env gs] else [])"
    by blast
  from ok have len: "length gs = 2" unfolding ms by (simp add: list_all2_lengthD [symmetric])
  from items have "[?i1, ?i2, ?i3] = map (group_item demo_env) gs @ [summary_item demo_env gs]"
    unfolding ms by simp
  with run have "fst (get_items demo_env ''2d6 1d20'' demo_rng) =
        Inr (map (group_item demo_env) gs @ [summary_item demo_env gs])"
    by simp
  with len have "\<exists>gs. length gs = 2 \<and>
      fst (get_items demo_env ''2d6 1d20'' demo_rng) =
        Inr (map (group_item demo_env) gs @ [summary_item demo_env gs])"
    by blast
  with run ms show ?thesis by blast
qed



text \<open>
  Claim C5. If an exception is raised while the tokens are extracted or rolled,
  \<open>handleQuery\<close> still returns, with no items, and makes exactly two diagnostic
  calls: first a warning that passes the error raised, then the fixed notice. The
  query \<^verbatim>\<open>1d0\<close>, whose side count of zero makes the random range empty, is such a
  case.
\<close>

theorem handleQuery_contains_exceptions:
  assumes "fullmatch multiple_dice_regex (strip query) \<noteq> None"
    and "get_items e (strip query) (world_rng w) = (Inl err, g')"
  shows "handleQuery e query w =
           (None, w\<lparr>world_rng := g',
                    diagnostics := diagnostics w @ [Warn err, Info format_notice]\<rparr>)"
  using assms by (auto simp: handleQuery_def)

theorem handleQuery_contains_exceptions_witness:
  "fullmatch multiple_dice_regex (strip ''1d0'') \<noteq> None \<and>
   fst (get_items demo_env (strip ''1d0'') (world_rng demo_world)) = Inl ValueError \<and>
   fst (handleQuery demo_env ''1d0'' demo_world) = None \<and>
   diagnostics (snd (handleQuery demo_env ''1d0'' demo_world)) =
     [Warn ValueError,
      Info ''Something went wrong. Make sure you're using the correct format.'']"
proof -
  have v: "fullmatch multiple_dice_regex (strip ''1d0'') \<noteq> None" by code_simp
  have f: "fst (get_items demo_env (strip ''1d0'') (world_rng demo_world)) = Inl ValueError"
    by code_simp
  have d: "diagnostics demo_world = []" by (simp add: demo_world_def)
  from handleQuery_contains_exceptions [OF v pair_fst_snd [OF f]] v f d
  show ?thesis by (simp add: format_notice_def)
qed

text \<open>
  Claim C6, at the query \<^verbatim>\<open>0d0\<close>. The query passes validation, it has one
  matched token and rolling it raises nothing, since no die is rolled. Its group
  entry is built with the side count \<open>0\<close> present, yet the headline is the one of
  the overall total, \<^verbatim>\<open>Overall Total: 0\<close>, instead of
  \<^verbatim>\<open>Rolled 0d0 - Total: 0\<close>: the headline is chosen by the truth value of the
  side count, not by its presence.
\<close>

theorem zero_sided_group_headline:
  "handleQuery e ''0d0'' w = (Some [get_item_from_rolls e [] 0 (Some 0)], w) \<and>
   get_items e ''0d0'' g = (Inr [get_item_from_rolls e [] 0 (Some 0)], g) \<and>
   item_text (get_item_from_rolls e [] 0 (Some 0)) = ''Overall Total: 0''"
proof -
  have s: "strip ''0d0'' = ''0d0''" by code_simp
  have v: "fullmatch multiple_dice_regex ''0d0'' \<noteq> None" by code_simp
  have run: "get_items e ''0d0'' g = (Inr [get_item_from_rolls e [] 0 (Some 0)], g)" for g
    by (simp add: get_items_def findall_0d0 py_int_0 roll_dice_zero_count)
  have "handleQuery e ''0d0'' w = (Some [get_item_from_rolls e [] 0 (Some 0)], w)"
    using v by (auto simp: handleQuery_def s run)
  moreover have "item_text (get_item_from_rolls e [] 0 (Some 0)) = ''Overall Total: 0''"
    by (simp add: get_item_from_rolls_def truthy_def str_int_0)
  ultimately show ?thesis using run by blast
qed

text \<open>
  Claim C7. Full-string validation accepts exactly the token sequences: one or more
  tokens \<^verbatim>\<open><digits>d<digits>\<close>, the letter in either case, each followed by a
  non-empty run of non-digit characters or by the end of the string. The separator
  run is the class \<^verbatim>\<open>\D\<close>: any character that is not a digit, the letter \<open>d\<close>
  included. Token extraction is a scan of its own that does not consult validation:
  from left to right it reports the two digit runs of every token it meets, resumes
  after that token, and skips a character where no token starts, so the tokens need
  not cover the string.
\<close>

theorem pattern_matcher_spec:
  "(fullmatch multiple_dice_regex s \<noteq> None \<longleftrightarrow> token_sequence s) \<and>
   findall single_dice_regex s = scan_tokens s"
  by (simp only: fullmatch_token_sequence findall_scan simp_thms)

theorem pattern_matcher_spec_witness:
  "token_sequence ''2d6 and 3D8'' \<and>
   scan_tokens ''2d6 and 3D8'' = [(''2'', ''6''), (''3'', ''8'')] \<and>
   \<not> token_sequence ''roll 2d6'' \<and>
   scan_tokens ''roll 2d6'' = [(''2'', ''6'')]"
proof -
  have v: "fullmatch multiple_dice_regex ''2d6 and 3D8'' \<noteq> None" by code_simp
  have f: "findall single_dice_regex ''2d6 and 3D8'' = [(''2'', ''6''), (''3'', ''8'')]"
    by code_simp
  have w: "fullmatch multiple_dice_regex ''roll 2d6'' = None" by code_simp
  have g: "findall single_dice_regex ''roll 2d6'' = [(''2'', ''6'')]" by code_simp
  from pattern_matcher_spec [of "''2d6 and 3D8''"] pattern_matcher_spec [of "''roll 2d6''"]
    v f w g
  show ?thesis by simp
qed







end
